theory Spec2Isabelle
  imports Complex_Main
begin

section \<open>The documents of the two collections\<close>

text \<open>
  The engine is the class \<open>OrderMatching\<close>. Its current revision is the file with
  \<open>constructor(mongoose, fawn, prefix)\<close> and \<open>addHooks\<close>; the file
  \<open>src/order-matching.js\<close> is an earlier revision of the same class. The model
  follows the current revision; where the earlier one differs in a way that matters,
  the difference is a branch on \<open>revision\<close>.

  The schema stores \<open>originalVolume\<close> and \<open>currentVolume\<close> as strings and reads
  them with \<open>BigNumber(...)\<close>. A stored volume is therefore a string together with the
  number BigNumber reads from it: \<open>Canon q\<close> is the string BigNumber itself prints for
  \<open>q\<close> (what \<open>BigNumber(a).minus(b)\<close> is stored as; the literal \<open>'0'\<close> is
  \<open>Canon 0\<close>), and \<open>Raw s q\<close> is any other string \<open>s\<close> that BigNumber reads as
  \<open>q\<close> (\<open>'0.0'\<close>, \<open>'05'\<close>, \<open>'1e1'\<close>). Strings BigNumber does not read as a
  finite number are outside the model. \<open>limit\<close> is a JavaScript number; only its
  order and \<open>max\<close> are used, so it is a rational here.
\<close>

datatype revision = Legacy | Current

datatype decimal = Canon rat | Raw string rat

fun num :: "decimal \<Rightarrow> rat" where
  "num (Canon q) = q"
| "num (Raw s q) = q"

datatype status = unprocessed | processed | canceled

record order =
  oid :: nat
  limit :: rat
  originalVolume :: decimal
  currentVolume :: decimal
  isSelling :: bool
  status :: status
  userId :: string
  created :: nat

text \<open>
  A field of a market-data document is a string; \<open>None\<close> is the empty string
  \<open>''\<close> the code writes when there is nothing to report.
\<close>

record marketData =
  sellVolume :: "decimal option"
  sellPrice :: "rat option"
  buyVolume :: "decimal option"
  buyPrice :: "rat option"
  matchVolume :: "rat option"
  matchPrice :: "rat option"
  mdCreated :: nat

section \<open>Queries\<close>

text \<open>
  \<open>Model.findOne(filter).sort({key: dir})\<close> returns the document of the filtered
  collection whose key is extreme; the sort names one key only, so among documents
  with the same key the store returns the one it meets first. A collection is the
  list of its documents in the order in which the store scans them.
  \<open>firstBest better xs\<close> is the first element of \<open>xs\<close> that no element beats.
\<close>

fun firstBest :: "('a \<Rightarrow> 'a \<Rightarrow> bool) \<Rightarrow> 'a list \<Rightarrow> 'a option" where
  "firstBest better [] = None"
| "firstBest better (x # xs) =
     (case firstBest better xs of
        None \<Rightarrow> Some x
      | Some y \<Rightarrow> if better y x then Some y else Some x)"

definition crossing :: "order \<Rightarrow> order \<Rightarrow> bool" where
  "crossing incoming d =
     (if isSelling incoming then limit incoming \<le> limit d else limit d \<le> limit incoming)"

definition eligible :: "order \<Rightarrow> order \<Rightarrow> bool" where
  "eligible incoming d =
     (currentVolume d \<noteq> Canon 0 \<and> status d \<noteq> canceled \<and> crossing incoming d
      \<and> isSelling d = (\<not> isSelling incoming))"

definition betterPrice :: "order \<Rightarrow> order \<Rightarrow> order \<Rightarrow> bool" where
  "betterPrice incoming a b =
     (if isSelling incoming then limit b < limit a else limit a < limit b)"

definition findMatching :: "order \<Rightarrow> order list \<Rightarrow> order option" where
  "findMatching incoming store = firstBest (betterPrice incoming) (filter (eligible incoming) store)"

definition findUnprocessed :: "order list \<Rightarrow> order option" where
  "findUnprocessed store =
     firstBest (\<lambda>a b. created a < created b) (filter (\<lambda>d. status d = unprocessed) store)"

definition resting :: "bool \<Rightarrow> order \<Rightarrow> bool" where
  "resting selling d =
     (status d \<noteq> canceled \<and> currentVolume d \<noteq> Canon 0 \<and> isSelling d = selling)"

definition latestSellOrder :: "order list \<Rightarrow> order option" where
  "latestSellOrder store = firstBest (\<lambda>a b. limit a < limit b) (filter (resting True) store)"

definition latestBuyOrder :: "order list \<Rightarrow> order option" where
  "latestBuyOrder store = firstBest (\<lambda>a b. limit b < limit a) (filter (resting False) store)"

definition getLatestMarketData :: "marketData list \<Rightarrow> marketData option" where
  "getLatestMarketData snapshots = firstBest (\<lambda>a b. mdCreated b < mdCreated a) snapshots"

section \<open>Updates\<close>

text \<open>
  \<open>update({_id: i}, {field: v})\<close> changes the first document whose \<open>_id\<close> is
  \<open>i\<close>; its result's \<open>nModified\<close> is 1 when there is such a document and the
  update changes it, and 0 otherwise.
\<close>

fun updateOne :: "nat \<Rightarrow> (order \<Rightarrow> order) \<Rightarrow> order list \<Rightarrow> order list" where
  "updateOne i f [] = []"
| "updateOne i f (d # ds) = (if oid d = i then f d # ds else d # updateOne i f ds)"

fun nModified :: "nat \<Rightarrow> (order \<Rightarrow> order) \<Rightarrow> order list \<Rightarrow> nat" where
  "nModified i f [] = 0"
| "nModified i f (d # ds) =
     (if oid d = i then (if f d = d then 0 else 1) else nModified i f ds)"

definition setVolume :: "rat \<Rightarrow> order \<Rightarrow> order" where
  "setVolume q d = d\<lparr>currentVolume := Canon q\<rparr>"

definition setStatus :: "status \<Rightarrow> order \<Rightarrow> order" where
  "setStatus st d = d\<lparr>status := st\<rparr>"

section \<open>One iteration of the matching loop\<close>

text \<open>
  \<open>price\<close> is the value of the variable \<open>price\<close> of \<open>processOrder\<close>: the string
  \<open>BigNumber.max(...).valueOf()\<close> when the incoming order sells, the number
  \<open>order.limit\<close> when it buys. The difference shows in the test
  \<open>!latestPrice\<close>: a string is falsy only when empty, a number when it is 0.
\<close>

datatype price = PriceText rat | PriceNumber rat

fun priceValue :: "price \<Rightarrow> rat" where
  "priceValue (PriceText q) = q"
| "priceValue (PriceNumber q) = q"

record fill =
  incoming :: order
  counterparty :: order
  fillVolume :: rat
  fillPrice :: price

definition modifiedCheck :: "revision \<Rightarrow> nat \<Rightarrow> bool" where
  "modifiedCheck r n = (case r of Legacy \<Rightarrow> True | Current \<Rightarrow> n = 1)"

text \<open>
  The body of the \<open>while\<close> loop once its condition holds: \<open>None\<close> is the
  \<open>break\<close> on \<open>!matching\<close>; otherwise the in-memory order, the store and the fill
  after the task has run. In the earlier revision the test on the result is the
  assignment \<open>results[0].nModified = 1\<close>, which is always truthy.
\<close>

definition matchIter :: "revision \<Rightarrow> order \<Rightarrow> order list \<Rightarrow> (order \<times> order list \<times> fill) option" where
  "matchIter r ord store =
     (case findMatching ord store of
        None \<Rightarrow> None
      | Some matching \<Rightarrow>
          let volume = min (num (currentVolume ord)) (num (currentVolume matching));
              price = (if isSelling ord then PriceText (max (limit ord) (limit matching))
                       else PriceNumber (limit ord));
              n = nModified (oid ord) (setVolume (num (currentVolume ord) - volume)) store;
              store' = updateOne (oid matching) (setVolume (num (currentVolume matching) - volume))
                         (updateOne (oid ord) (setVolume (num (currentVolume ord) - volume)) store);
              ord' = (if modifiedCheck r n then setVolume (num (currentVolume ord) - volume) ord
                      else ord)
          in Some (ord', store',
                   \<lparr>incoming = ord, counterparty = matching, fillVolume = volume, fillPrice = price\<rparr>))"

text \<open>
  The whole loop, run without interruption. It need not terminate on every input, so
  not returning is the value \<open>None\<close>.
\<close>

partial_function (option) matchLoop ::
  "revision \<Rightarrow> order \<Rightarrow> order list \<Rightarrow> rat option \<Rightarrow> price option \<Rightarrow> fill list
     \<Rightarrow> (order \<times> order list \<times> rat option \<times> price option \<times> fill list) option" where
  "matchLoop r ord store latestVolume latestPrice fs =
     (if 0 < num (currentVolume ord) then
        (case matchIter r ord store of
           None \<Rightarrow> Some (ord, store, latestVolume, latestPrice, fs)
         | Some (ord', store', f) \<Rightarrow>
             matchLoop r ord' store' (Some (fillVolume f)) (Some (fillPrice f)) (fs @ [f]))
      else Some (ord, store, latestVolume, latestPrice, fs))"

section \<open>The market-data document of a pass\<close>

fun falsyVolume :: "rat option \<Rightarrow> bool" where
  "falsyVolume None = True"
| "falsyVolume (Some v) = False"

fun falsyPrice :: "price option \<Rightarrow> bool" where
  "falsyPrice None = True"
| "falsyPrice (Some (PriceText q)) = False"
| "falsyPrice (Some (PriceNumber q)) = (q = 0)"

text \<open>
  The test before the market-data document is written. The current revision reads
  \<open>!latestVolume && !latestPrice && latestMarketData\<close>. The earlier one reads
  \<open>!latestVolume && !matchPrice && latestMarketData\<close>, and \<open>matchPrice\<close> is declared
  nowhere: when \<open>!latestVolume\<close> holds, evaluating it throws a ReferenceError
  (the value \<open>None\<close> here); when it does not, \<open>&&\<close> stops before reaching it.
\<close>

definition carryForward ::
  "revision \<Rightarrow> rat option \<Rightarrow> price option \<Rightarrow> marketData option \<Rightarrow> (rat option \<times> rat option) option" where
  "carryForward r latestVolume latestPrice latestMarketData =
     (case r of
        Current \<Rightarrow>
          (case latestMarketData of
             Some latest \<Rightarrow>
               if falsyVolume latestVolume \<and> falsyPrice latestPrice
               then Some (matchVolume latest, matchPrice latest)
               else Some (latestVolume, map_option priceValue latestPrice)
           | None \<Rightarrow> Some (latestVolume, map_option priceValue latestPrice))
      | Legacy \<Rightarrow>
          if falsyVolume latestVolume then None
          else Some (latestVolume, map_option priceValue latestPrice))"

definition appendMarketData ::
  "revision \<Rightarrow> nat \<Rightarrow> order list \<Rightarrow> marketData list \<Rightarrow> rat option \<Rightarrow> price option
     \<Rightarrow> marketData list option" where
  "appendMarketData r now store snapshots latestVolume latestPrice =
     (let latestSell = latestSellOrder store;
          latestBuy = latestBuyOrder store
      in case carryForward r latestVolume latestPrice (getLatestMarketData snapshots) of
           None \<Rightarrow> None
         | Some (v, p) \<Rightarrow>
             Some (snapshots @
               [\<lparr>sellVolume = map_option currentVolume latestSell,
                 sellPrice = map_option limit latestSell,
                 buyVolume = map_option currentVolume latestBuy,
                 buyPrice = map_option limit latestBuy,
                 matchVolume = v, matchPrice = p, mdCreated = now\<rparr>]))"

section \<open>The engine between two awaits\<close>

text \<open>
  The methods are \<open>async\<close>: at every \<open>await\<close> of a store call the event loop may
  run another method. \<open>placeOrder\<close> calls \<open>matchNextOrder\<close> without awaiting it, so
  it returns while the drain it started is still suspended, and \<open>cancelOrder\<close> or
  another \<open>placeOrder\<close> can commit between two store calls of a pass. The state
  therefore holds, besides the two collections and the flag \<open>this.processing\<close>,
  where the suspended drain will continue:
  \<^item> \<open>Idle\<close>: no drain is suspended;
  \<^item> \<open>Fetch\<close>: \<open>matchNextOrder\<close> has set the flag and awaits its \<open>findOne\<close>;
  \<^item> \<open>Loop ord v p\<close>: \<open>processOrder\<close> is at the head of its \<open>while\<close> loop with
    the in-memory order \<open>ord\<close> and the variables \<open>latestVolume\<close>, \<open>latestPrice\<close>;
  \<^item> \<open>Snap ord v p\<close>: the order has been set to processed and the market-data
    queries are pending.
  A fill's query and commit, and the four store calls that build the market-data
  document, are each taken as one step; the \<open>while\<close> condition is tested at the
  start of a step, and the update to processed is part of the step that leaves the
  loop. \<open>fills\<close> lists the committed fills as the \<open>onAfterMatched\<close> hook received
  them and \<open>logged\<close> counts the calls of \<open>console.log(err)\<close>.

  The store and the libraries are taken at their contract. A task commits the steps
  of the method that runs it, all or none, and a task that throws leaves the store as
  it was. The three hooks have been set (\<open>addHooks\<close>) and add nothing to a task.
  An error of the query inside \<open>getLatestMarketData\<close> is caught there and is not an
  event of the model.
\<close>

datatype pc = Idle | Fetch | Loop order "rat option" "price option" | Snap order "rat option" "price option"

record engine =
  Order :: "order list"
  MarketData :: "marketData list"
  processing :: bool
  pc :: pc
  fills :: "fill list"
  logged :: nat

datatype jsvalue = Undefined | ObjectId nat

datatype outcome = Returns jsvalue | Throws

text \<open>
  \<open>matchNextOrder\<close> up to its first \<open>await\<close>: it returns at once when the flag is
  set.
\<close>

definition matchNextOrder :: "engine \<Rightarrow> engine" where
  "matchNextOrder s = (if processing s then s else s\<lparr>processing := True, pc := Fetch\<rparr>)"

text \<open>
  The constructor ends with \<open>this.matchNextOrder()\<close>; \<open>this.processing\<close> is
  undefined, hence falsy, before.
\<close>

definition boot :: "order list \<Rightarrow> marketData list \<Rightarrow> engine" where
  "boot store snapshots =
     matchNextOrder \<lparr>Order = store, MarketData = snapshots, processing = False, pc = Idle,
                     fills = [], logged = 0\<rparr>"

text \<open>
  \<open>placeOrder\<close>: \<open>orderId\<close> is the value of \<open>Mongoose.Types.ObjectId()\<close> and
  \<open>now\<close> that of \<open>Date.now\<close> for the default of \<open>created\<close>. Saving a document
  whose \<open>_id\<close> is taken is rejected by the store; like every error it is caught and
  logged. There is no \<open>return\<close> statement.
\<close>

definition placeOrder ::
  "nat \<Rightarrow> nat \<Rightarrow> rat \<Rightarrow> decimal \<Rightarrow> string \<Rightarrow> bool \<Rightarrow> engine \<Rightarrow> outcome \<times> engine" where
  "placeOrder now orderId limitPrice volume user selling s =
     (if orderId \<in> set (map oid (Order s)) then (Returns Undefined, s\<lparr>logged := Suc (logged s)\<rparr>)
      else (Returns Undefined,
            matchNextOrder (s\<lparr>Order := Order s @
              [\<lparr>oid = orderId, limit = limitPrice, originalVolume = volume, currentVolume = volume,
                isSelling = selling, status = unprocessed, userId = user, created = now\<rparr>]\<rparr>)))"

definition cancelOrder :: "nat \<Rightarrow> engine \<Rightarrow> outcome \<times> engine" where
  "cancelOrder orderId s =
     (Returns Undefined, s\<lparr>Order := updateOne orderId (setStatus canceled) (Order s)\<rparr>)"

text \<open>
  What \<open>matchNextOrder\<close> does once \<open>processOrder\<close> has returned: it calls itself.
\<close>

definition afterPass :: "engine \<Rightarrow> engine" where
  "afterPass s = matchNextOrder (s\<lparr>pc := Idle\<rparr>)"

definition fetchStep :: "engine \<Rightarrow> engine" where
  "fetchStep s =
     (case findUnprocessed (Order s) of
        None \<Rightarrow> s\<lparr>processing := False, pc := Idle\<rparr>
      | Some ord \<Rightarrow> s\<lparr>pc := Loop ord None None\<rparr>)"

definition setProcessed :: "order \<Rightarrow> rat option \<Rightarrow> price option \<Rightarrow> engine \<Rightarrow> engine" where
  "setProcessed ord v p s =
     s\<lparr>Order := updateOne (oid ord) (setStatus processed) (Order s), pc := Snap ord v p\<rparr>"

definition loopStep :: "revision \<Rightarrow> order \<Rightarrow> rat option \<Rightarrow> price option \<Rightarrow> engine \<Rightarrow> engine" where
  "loopStep r ord v p s =
     (if 0 < num (currentVolume ord) then
        (case matchIter r ord (Order s) of
           None \<Rightarrow> setProcessed ord v p s
         | Some (ord', store', f) \<Rightarrow>
             s\<lparr>Order := store', fills := fills s @ [f],
               pc := Loop ord' (Some (fillVolume f)) (Some (fillPrice f))\<rparr>)
      else setProcessed ord v p s)"

text \<open>
  The end of \<open>processOrder\<close>. Only the current revision clears the flag there, and
  only on the path that does not throw; the \<open>catch\<close> of \<open>processOrder\<close> logs and
  returns.
\<close>

definition writeMarketData :: "revision \<Rightarrow> nat \<Rightarrow> rat option \<Rightarrow> price option \<Rightarrow> engine \<Rightarrow> engine" where
  "writeMarketData r now v p s =
     (case appendMarketData r now (Order s) (MarketData s) v p of
        None \<Rightarrow> s\<lparr>logged := Suc (logged s)\<rparr>
      | Some snapshots' \<Rightarrow>
          (case r of
             Current \<Rightarrow> s\<lparr>MarketData := snapshots', processing := False\<rparr>
           | Legacy \<Rightarrow> s\<lparr>MarketData := snapshots'\<rparr>))"

definition snapStep :: "revision \<Rightarrow> nat \<Rightarrow> rat option \<Rightarrow> price option \<Rightarrow> engine \<Rightarrow> engine" where
  "snapStep r now v p s = afterPass (writeMarketData r now v p s)"

text \<open>The pending store call of the suspended drain completes.\<close>

definition tick :: "revision \<Rightarrow> nat \<Rightarrow> engine \<Rightarrow> engine" where
  "tick r now s =
     (case pc s of
        Idle \<Rightarrow> s
      | Fetch \<Rightarrow> fetchStep s
      | Loop ord v p \<Rightarrow> loopStep r ord v p s
      | Snap ord v p \<Rightarrow> snapStep r now v p s)"

text \<open>
  The pending store call of the suspended drain throws. In \<open>matchNextOrder\<close> the
  \<open>catch\<close> logs and clears the flag; in \<open>processOrder\<close> it only logs, and
  \<open>matchNextOrder\<close> goes on to call itself.
\<close>

definition fault :: "engine \<Rightarrow> engine" where
  "fault s =
     (case pc s of
        Idle \<Rightarrow> s
      | Fetch \<Rightarrow> s\<lparr>logged := Suc (logged s), processing := False, pc := Idle\<rparr>
      | Loop ord v p \<Rightarrow> afterPass (s\<lparr>logged := Suc (logged s)\<rparr>)
      | Snap ord v p \<Rightarrow> afterPass (s\<lparr>logged := Suc (logged s)\<rparr>))"

datatype event =
    PlaceOrder nat nat rat decimal string bool
  | CancelOrder nat
  | Tick nat
  | Fault

fun step :: "revision \<Rightarrow> engine \<Rightarrow> event \<Rightarrow> engine" where
  "step r s (PlaceOrder now orderId limitPrice volume user selling) =
     snd (placeOrder now orderId limitPrice volume user selling s)"
| "step r s (CancelOrder orderId) = snd (cancelOrder orderId s)"
| "step r s (Tick now) = tick r now s"
| "step r s Fault = fault s"

definition run :: "revision \<Rightarrow> engine \<Rightarrow> event list \<Rightarrow> engine" where
  "run r s evs = foldl (step r) s evs"

text \<open>
  \<open>processOrder\<close> as a whole, when nothing is committed between its store calls and
  none of them throws: the loop, the update to processed, the market-data document.
  \<open>None\<close> is a loop that does not return.
\<close>

definition processOrder :: "revision \<Rightarrow> nat \<Rightarrow> order \<Rightarrow> engine \<Rightarrow> engine option" where
  "processOrder r now ord s =
     (case matchLoop r ord (Order s) None None (fills s) of
        None \<Rightarrow> None
      | Some (ord', store', v, p, fs) \<Rightarrow>
          Some (writeMarketData r now v p
                  (setProcessed ord' v p (s\<lparr>Order := store', fills := fs\<rparr>))))"

section \<open>Predicates of the statements\<close>

text \<open>
  The sort key of the counterparty query as one number: the query sorts \<open>limit\<close>
  descending when the incoming order sells and ascending when it buys.
\<close>

definition priceKey :: "order \<Rightarrow> order \<Rightarrow> rat" where
  "priceKey ord d = (if isSelling ord then - limit d else limit d)"

text \<open>
  On a collection with unique \<open>_id\<close>s, \<open>updateOne i f\<close> is \<open>updAll i f\<close> on every
  document.
\<close>

definition updAll :: "nat \<Rightarrow> (order \<Rightarrow> order) \<Rightarrow> order \<Rightarrow> order" where
  "updAll i f d = (if oid d = i then f d else d)"

text \<open>
  The in-memory order of a pass and the store agree when the store holds a document
  with its \<open>_id\<close>, its side and its current volume. The status is left out: a
  \<open>cancelOrder\<close> may change the stored one while the pass runs.
\<close>

definition inSync :: "order \<Rightarrow> order list \<Rightarrow> bool" where
  "inSync ord store =
     (\<exists>d\<in>set store. oid d = oid ord \<and> currentVolume d = currentVolume ord
        \<and> isSelling d = isSelling ord)"

text \<open>What a fill of \<open>ord\<close> against \<open>m\<close> does to a document of the store.\<close>

definition fillUpdate :: "order \<Rightarrow> order \<Rightarrow> order \<Rightarrow> order" where
  "fillUpdate ord m d =
     (let v = min (num (currentVolume ord)) (num (currentVolume m)) in
      if oid d = oid m then setVolume (num (currentVolume m) - v) d
      else if oid d = oid ord then setVolume (num (currentVolume ord) - v) d
      else d)"

text \<open>The rule for the volume and the price of a fill.\<close>

definition fillRule :: "fill \<Rightarrow> bool" where
  "fillRule f =
     (fillVolume f = min (num (currentVolume (incoming f))) (num (currentVolume (counterparty f)))
      \<and> priceValue (fillPrice f) =
          (if isSelling (incoming f) then max (limit (incoming f)) (limit (counterparty f))
           else limit (incoming f)))"







section \<open>Example inputs\<close>

definition restingAsk :: "nat \<Rightarrow> rat \<Rightarrow> rat \<Rightarrow> nat \<Rightarrow> order" where
  "restingAsk i p v t =
     \<lparr>oid = i, limit = p, originalVolume = Canon v, currentVolume = Canon v, isSelling = True,
      status = processed, userId = ''maker'', created = t\<rparr>"

definition incomingBid :: "nat \<Rightarrow> rat \<Rightarrow> rat \<Rightarrow> nat \<Rightarrow> order" where
  "incomingBid i p v t =
     \<lparr>oid = i, limit = p, originalVolume = Canon v, currentVolume = Canon v, isSelling = False,
      status = unprocessed, userId = ''taker'', created = t\<rparr>"

text \<open>
  The partial fill of the specification: sell order A (limit 10, volume 5), then buy
  order B (limit 12, volume 8), each placed on an idle engine.
\<close>

definition partialFill :: "event list" where
  "partialFill =
     [PlaceOrder 1 1 10 (Canon 5) ''A'' True, Tick 2, Tick 3, Tick 4, Tick 5,
      PlaceOrder 6 2 12 (Canon 8) ''B'' False, Tick 7, Tick 8]"

text \<open>
  A sell order is placed, the drain fetches it, \<open>cancelOrder\<close> commits, and the
  pass, which finds no counterparty, sets the order to processed.
\<close>

definition cancelRace :: "event list" where
  "cancelRace = [PlaceOrder 1 1 10 (Canon 5) ''A'' True, Tick 2, CancelOrder 1, Tick 3]"

text \<open>A market-data document written by an earlier pass that had a fill.\<close>

definition earlierSnapshot :: marketData where
  "earlierSnapshot =
     \<lparr>sellVolume = None, sellPrice = None, buyVolume = Some (Canon 3), buyPrice = Some 12,
      matchVolume = Some 5, matchPrice = Some 12, mdCreated = 10\<rparr>"

section \<open>The counterparty query\<close>

lemma firstBest_None: "firstBest better xs = None \<longleftrightarrow> xs = []"
  by (induction xs) (auto split: option.splits)

lemma firstBest_key_split:
  fixes k :: "'a \<Rightarrow> rat"
  shows "firstBest (\<lambda>a b. k a < k b) xs = Some y \<Longrightarrow>
    \<exists>ys zs. xs = ys @ y # zs \<and> (\<forall>x\<in>set ys. k y < k x) \<and> (\<forall>x\<in>set zs. k y \<le> k x)"
proof (induction xs arbitrary: y)
  case Nil
  then show ?case by simp
next
  case (Cons x xs)
  show ?case
  proof (cases "firstBest (\<lambda>a b. k a < k b) xs")
    case None
    then have "xs = []" by (simp add: firstBest_None)
    with Cons.prems have "x # xs = [] @ y # [] \<and> (\<forall>a\<in>set []. k y < k a) \<and> (\<forall>a\<in>set []. k y \<le> k a)"
      by simp
    then show ?thesis by blast
  next
    case (Some y')
    from Cons.IH [OF Some] obtain ys zs where
      split: "xs = ys @ y' # zs" and before: "\<forall>x\<in>set ys. k y' < k x" and after: "\<forall>x\<in>set zs. k y' \<le> k x"
      by blast
    show ?thesis
    proof (cases "k y' < k x")
      case True
      with Some Cons.prems have "y = y'" by simp
      with split before after True have
        "x # xs = (x # ys) @ y # zs \<and> (\<forall>a\<in>set (x # ys). k y < k a) \<and> (\<forall>a\<in>set zs. k y \<le> k a)"
        by simp
      then show ?thesis by blast
    next
      case False
      with Some Cons.prems have yx: "y = x" by simp
      from False split before after have "\<forall>a\<in>set xs. k x \<le> k a"
        by (auto simp: not_less intro: order_trans less_imp_le)
      with yx have "x # xs = [] @ y # xs \<and> (\<forall>a\<in>set []. k y < k a) \<and> (\<forall>a\<in>set xs. k y \<le> k a)"
        by simp
      then show ?thesis by blast
    qed
  qed
qed

lemma betterPrice_key: "betterPrice ord = (\<lambda>a b. priceKey ord a < priceKey ord b)"
  by (auto simp: betterPrice_def priceKey_def fun_eq_iff)

lemma filter_split:
  "filter P xs = ys @ m # zs \<Longrightarrow>
   \<exists>us vs. xs = us @ m # vs \<and> filter P us = ys \<and> filter P vs = zs \<and> P m"
proof (induction xs arbitrary: ys)
  case Nil
  then show ?case by simp
next
  case (Cons x xs)
  show ?case
  proof (cases "P x")
    case False
    with Cons.prems have "filter P xs = ys @ m # zs" by simp
    from Cons.IH [OF this] obtain us vs where
      "xs = us @ m # vs" "filter P us = ys" "filter P vs = zs" "P m" by blast
    with False have "x # xs = (x # us) @ m # vs \<and> filter P (x # us) = ys \<and> filter P vs = zs \<and> P m"
      by simp
    then show ?thesis by blast
  next
    case True
    show ?thesis
    proof (cases ys)
      case Nil
      with True Cons.prems have "x # xs = [] @ m # xs \<and> filter P [] = ys \<and> filter P xs = zs \<and> P m"
        by simp
      then show ?thesis by blast
    next
      case (Cons y ys')
      with True Cons.prems have yx: "y = x" and "filter P xs = ys' @ m # zs" by simp_all
      from Cons.IH [OF this(2)] obtain us vs where
        "xs = us @ m # vs" "filter P us = ys'" "filter P vs = zs" "P m" by blast
      with True yx Cons have
        "x # xs = (x # us) @ m # vs \<and> filter P (x # us) = ys \<and> filter P vs = zs \<and> P m"
        by simp
      then show ?thesis by blast
    qed
  qed
qed

lemma findMatching_split:
  assumes "findMatching ord store = Some m"
  shows "\<exists>us vs. store = us @ m # vs \<and> eligible ord m
      \<and> (\<forall>d\<in>set us. eligible ord d \<longrightarrow> priceKey ord m < priceKey ord d)
      \<and> (\<forall>d\<in>set vs. eligible ord d \<longrightarrow> priceKey ord m \<le> priceKey ord d)"
proof -
  from assms have "firstBest (\<lambda>a b. priceKey ord a < priceKey ord b) (filter (eligible ord) store) = Some m"
    by (simp add: findMatching_def betterPrice_key)
  from firstBest_key_split [OF this] obtain ys zs where
    f: "filter (eligible ord) store = ys @ m # zs"
    and b: "\<forall>x\<in>set ys. priceKey ord m < priceKey ord x"
    and a: "\<forall>x\<in>set zs. priceKey ord m \<le> priceKey ord x" by blast
  from filter_split [OF f] obtain us vs where
    s: "store = us @ m # vs" and u: "filter (eligible ord) us = ys"
    and v: "filter (eligible ord) vs = zs" and e: "eligible ord m" by blast
  from u b have "\<forall>d\<in>set us. eligible ord d \<longrightarrow> priceKey ord m < priceKey ord d" by auto
  moreover from v a have "\<forall>d\<in>set vs. eligible ord d \<longrightarrow> priceKey ord m \<le> priceKey ord d" by auto
  ultimately show ?thesis using s e by blast
qed


lemma findMatching_not_canceled: "findMatching ord store = Some m \<Longrightarrow> status m \<noteq> canceled"
  using findMatching_split [of ord store m] by (auto simp: eligible_def)

lemma matchIter_Some:
  assumes "matchIter r ord store = Some (ord', store', f)"
  shows "findMatching ord store = Some (counterparty f) \<and> incoming f = ord
    \<and> fillVolume f = min (num (currentVolume ord)) (num (currentVolume (counterparty f)))
    \<and> fillPrice f = (if isSelling ord then PriceText (max (limit ord) (limit (counterparty f)))
                      else PriceNumber (limit ord))"
  using assms by (auto simp: matchIter_def Let_def split: option.splits)

text \<open>
  C1, amended. In every iteration of a matching pass that finds a counterparty, the
  counterparty is a document of the store that is eligible for the incoming order
  (opposite side, not canceled, volume string not \<open>'0'\<close>, crossing limit) and has
  the best price among the eligible ones: no eligible order has a lower ask when the
  incoming order buys, none a higher bid when it sells. Among eligible orders of that
  price it is the one the store meets first; \<open>created\<close> plays no part in the query.
\<close>

theorem C1_selection:
  assumes "matchIter r ord store = Some (ord', store', f)"
  shows "\<exists>before after. store = before @ counterparty f # after
      \<and> eligible ord (counterparty f)
      \<and> (\<forall>d\<in>set store. eligible ord d \<longrightarrow>
            (if isSelling ord then limit d \<le> limit (counterparty f)
             else limit (counterparty f) \<le> limit d))
      \<and> (\<forall>d\<in>set before. eligible ord d \<longrightarrow> limit d \<noteq> limit (counterparty f))"
proof -
  from matchIter_Some [OF assms] have "findMatching ord store = Some (counterparty f)" by simp
  from findMatching_split [OF this] obtain us vs where
    s: "store = us @ counterparty f # vs" and e: "eligible ord (counterparty f)"
    and b: "\<forall>d\<in>set us. eligible ord d \<longrightarrow> priceKey ord (counterparty f) < priceKey ord d"
    and a: "\<forall>d\<in>set vs. eligible ord d \<longrightarrow> priceKey ord (counterparty f) \<le> priceKey ord d"
    by blast
  have best: "\<forall>d\<in>set store. eligible ord d \<longrightarrow>
            (if isSelling ord then limit d \<le> limit (counterparty f)
             else limit (counterparty f) \<le> limit d)"
    using s a b by (auto simp: priceKey_def split: if_splits dest: less_imp_le)
  have first: "\<forall>d\<in>set us. eligible ord d \<longrightarrow> limit d \<noteq> limit (counterparty f)"
    using b by (auto simp: priceKey_def split: if_splits)
  from s e best first show ?thesis by blast
qed

section \<open>Fills of a run\<close>

lemma run_invariant:
  assumes "P s" and "\<And>s e. P s \<Longrightarrow> Q e \<Longrightarrow> P (step r s e)" and "\<forall>e\<in>set evs. Q e"
  shows "P (run r s evs)"
  using assms(1,3) unfolding run_def
proof (induction evs arbitrary: s)
  case Nil
  then show ?case by simp
next
  case (Cons e evs)
  from Cons.prems have "P (step r s e)" by (simp add: assms(2))
  with Cons show ?case by simp
qed

lemma fills_matchNextOrder [simp]: "fills (matchNextOrder s) = fills s"
  by (simp add: matchNextOrder_def)

lemma fills_afterPass [simp]: "fills (afterPass s) = fills s"
  by (simp add: afterPass_def)

lemma fills_step:
  "f \<in> set (fills (step r s e)) \<Longrightarrow>
   f \<in> set (fills s) \<or> (\<exists>ord v p ord' store'. pc s = Loop ord v p \<and> matchIter r ord (Order s) = Some (ord', store', f))"
  by (cases e)
     (auto simp: placeOrder_def cancelOrder_def tick_def fault_def fetchStep_def loopStep_def
        setProcessed_def snapStep_def writeMarketData_def
        split: pc.splits option.splits if_splits revision.splits)

lemma fillRule_matchIter: "matchIter r ord store = Some (ord', store', f) \<Longrightarrow> fillRule f"
  using matchIter_Some [of r ord store ord' store' f] by (simp add: fillRule_def)

lemma fillRule_step: "(\<forall>f\<in>set (fills s). fillRule f) \<Longrightarrow> (\<forall>f\<in>set (fills (step r s e)). fillRule f)"
  using fills_step fillRule_matchIter by blast

text \<open>
  C2. Whatever the engine is started on and whatever happens to it, every fill it has
  committed has the volume \<open>min(incoming.currentVolume, counterparty.currentVolume)\<close>,
  and the price \<open>max(incoming.limit, counterparty.limit)\<close> when the incoming order
  sells and \<open>incoming.limit\<close> when it buys. \<open>incoming\<close> is the in-memory order of
  the pass and \<open>counterparty\<close> the document the query returned, both as they were when
  the fill was computed.
\<close>

theorem C2_fill_volume_price:
  "\<forall>f\<in>set (fills (run r (boot store snapshots) evs)).
     fillVolume f = min (num (currentVolume (incoming f))) (num (currentVolume (counterparty f)))
     \<and> priceValue (fillPrice f) =
          (if isSelling (incoming f) then max (limit (incoming f)) (limit (counterparty f))
           else limit (incoming f))"
proof -
  have "\<forall>f\<in>set (fills (boot store snapshots)). fillRule f"
    by (simp add: boot_def)
  then have "\<forall>f\<in>set (fills (run r (boot store snapshots) evs)). fillRule f"
    by (rule run_invariant [where Q = "\<lambda>e. True"]) (simp_all add: fillRule_step)
  then show ?thesis by (simp add: fillRule_def)
qed

section \<open>A fill on a store with unique ids\<close>

lemma updAll_absent: "i \<notin> set (map oid ds) \<Longrightarrow> map (updAll i f) ds = ds"
  by (induction ds) (auto simp: updAll_def)

lemma updateOne_map:
  "distinct (map oid ds) \<Longrightarrow> updateOne i f ds = map (updAll i f) ds"
proof (induction ds)
  case Nil
  then show ?case by simp
next
  case (Cons d ds)
  show ?case
  proof (cases "oid d = i")
    case True
    with Cons.prems have "i \<notin> set (map oid ds)" by auto
    then have rest: "map (updAll i f) ds = ds" by (rule updAll_absent)
    from True have "updAll i f d = f d" by (simp add: updAll_def)
    with True rest show ?thesis by simp
  next
    case False
    then have "updAll i f d = d" by (simp add: updAll_def)
    with False Cons show ?thesis by simp
  qed
qed

lemma same_oid:
  "distinct (map oid ds) \<Longrightarrow> a \<in> set ds \<Longrightarrow> b \<in> set ds \<Longrightarrow> oid a = oid b \<Longrightarrow> a = b"
  by (auto simp: distinct_map dest: inj_onD)

lemma nModified_member:
  "distinct (map oid ds) \<Longrightarrow> d \<in> set ds \<Longrightarrow> nModified (oid d) f ds = (if f d = d then 0 else 1)"
  by (induction ds) (auto simp: rev_image_eqI)

lemma oid_setVolume [simp]: "oid (setVolume q d) = oid d"
  and isSelling_setVolume [simp]: "isSelling (setVolume q d) = isSelling d"
  and limit_setVolume [simp]: "limit (setVolume q d) = limit d"
  and status_setVolume [simp]: "status (setVolume q d) = status d"
  and originalVolume_setVolume [simp]: "originalVolume (setVolume q d) = originalVolume d"
  and currentVolume_setVolume [simp]: "currentVolume (setVolume q d) = Canon q"
  by (simp_all add: setVolume_def)

lemma oid_setStatus [simp]: "oid (setStatus st d) = oid d"
  and isSelling_setStatus [simp]: "isSelling (setStatus st d) = isSelling d"
  and originalVolume_setStatus [simp]: "originalVolume (setStatus st d) = originalVolume d"
  and currentVolume_setStatus [simp]: "currentVolume (setStatus st d) = currentVolume d"
  by (simp_all add: setStatus_def)

lemma oid_updAll: "(\<And>d. oid (f d) = oid d) \<Longrightarrow> oid (updAll i f d) = oid d"
  by (simp add: updAll_def)

lemma map_oid_updAll: "(\<And>d. oid (f d) = oid d) \<Longrightarrow> map oid (map (updAll i f) ds) = map oid ds"
  by (simp add: oid_updAll)

lemma matchIter_sync:
  assumes dist: "distinct (map oid store)"
    and sync: "inSync ord store"
    and iter: "matchIter r ord store = Some (ord', store', f)"
  shows "store' = map (fillUpdate ord (counterparty f)) store
     \<and> oid (counterparty f) \<noteq> oid ord
     \<and> counterparty f \<in> set store
     \<and> eligible ord (counterparty f)
     \<and> oid ord' = oid ord \<and> isSelling ord' = isSelling ord \<and> limit ord' = limit ord
     \<and> (currentVolume ord' = Canon (num (currentVolume ord) - fillVolume f)
          \<or> (ord' = ord \<and> r = Current
               \<and> currentVolume ord = Canon (num (currentVolume ord) - fillVolume f)))"
proof -
  let ?m = "counterparty f"
  let ?v = "min (num (currentVolume ord)) (num (currentVolume ?m))"
  let ?fo = "setVolume (num (currentVolume ord) - ?v)"
  let ?fm = "setVolume (num (currentVolume ?m) - ?v)"
  from matchIter_Some [OF iter] have fm: "findMatching ord store = Some ?m"
    and v: "fillVolume f = ?v" by simp_all
  from findMatching_split [OF fm] have mem: "?m \<in> set store" and el: "eligible ord ?m"
    by auto
  from sync obtain d0 where d0: "d0 \<in> set store" "oid d0 = oid ord"
    "currentVolume d0 = currentVolume ord" "isSelling d0 = isSelling ord"
    by (auto simp: inSync_def)
  have ne: "oid ?m \<noteq> oid ord"
  proof
    assume "oid ?m = oid ord"
    with d0 mem have "?m = d0" by (simp add: same_oid [OF dist])
    with el d0 show False by (simp add: eligible_def)
  qed
  from iter fm have store': "store' = updateOne (oid ?m) ?fm (updateOne (oid ord) ?fo store)"
    and ord': "ord' = (if modifiedCheck r (nModified (oid ord) ?fo store) then ?fo ord else ord)"
    by (auto simp: matchIter_def Let_def)
  have d1: "distinct (map oid (map (updAll (oid ord) ?fo) store))"
    using dist by (simp add: oid_updAll o_def)
  have "store' = map (updAll (oid ?m) ?fm) (map (updAll (oid ord) ?fo) store)"
    using store' by (simp add: updateOne_map [OF dist] updateOne_map [OF d1])
  also have "\<dots> = map (fillUpdate ord ?m) store"
    using ne by (auto simp: updAll_def fillUpdate_def Let_def)
  finally have s: "store' = map (fillUpdate ord ?m) store" .
  have n: "nModified (oid ord) ?fo store = (if ?fo d0 = d0 then 0 else 1)"
    using nModified_member [OF dist d0(1), of ?fo] d0(2) by simp
  have same: "?fo d0 = d0 \<Longrightarrow> currentVolume ord = Canon (num (currentVolume ord) - ?v)"
  proof -
    assume "?fo d0 = d0"
    then have "currentVolume (?fo d0) = currentVolume d0" by simp
    with d0(3) show ?thesis by simp
  qed
  have cur: "currentVolume ord' = Canon (num (currentVolume ord) - fillVolume f)
          \<or> (ord' = ord \<and> r = Current \<and> currentVolume ord = Canon (num (currentVolume ord) - fillVolume f))"
    using ord' n same v by (cases r) (auto simp: modifiedCheck_def)
  from ord' have "oid ord' = oid ord \<and> isSelling ord' = isSelling ord \<and> limit ord' = limit ord"
    by simp
  with s ne mem el cur show ?thesis by simp
qed

lemma eligible_cong:
  "isSelling a = isSelling b \<Longrightarrow> limit a = limit b \<Longrightarrow> eligible a = eligible b"
  by (auto simp: eligible_def crossing_def fun_eq_iff)

lemma filter_map_le:
  "\<forall>x\<in>set xs. P (g x) \<longrightarrow> P x \<Longrightarrow> length (filter P (map g xs)) \<le> length (filter P xs)"
  by (induction xs) auto

lemma filter_map_less:
  assumes "\<forall>x\<in>set xs. P (g x) \<longrightarrow> P x" and "m \<in> set xs" and "P m" and "\<not> P (g m)"
  shows "length (filter P (map g xs)) < length (filter P xs)"
  using assms
proof (induction xs)
  case Nil
  then show ?case by simp
next
  case (Cons x xs)
  from Cons.prems(1) have le: "length (filter P (map g xs)) \<le> length (filter P xs)"
    by (intro filter_map_le) simp
  show ?case
  proof (cases "x = m")
    case True
    with Cons.prems le show ?thesis by simp
  next
    case False
    with Cons.prems have "m \<in> set xs" by simp
    with Cons have "length (filter P (map g xs)) < length (filter P xs)" by simp
    with Cons.prems(1) show ?thesis by simp
  qed
qed

lemma fillUpdate_oid [simp]: "oid (fillUpdate ord m d) = oid d"
  by (simp add: fillUpdate_def Let_def)

lemma fillUpdate_isSelling [simp]: "isSelling (fillUpdate ord m d) = isSelling d"
  by (simp add: fillUpdate_def Let_def)

lemma fillUpdate_other:
  "oid d \<noteq> oid m \<Longrightarrow> oid d \<noteq> oid ord \<Longrightarrow> fillUpdate ord m d = d"
  by (simp add: fillUpdate_def Let_def)

lemma fillUpdate_incoming:
  "oid d = oid ord \<Longrightarrow> oid m \<noteq> oid ord \<Longrightarrow>
   fillUpdate ord m d =
     setVolume (num (currentVolume ord) - min (num (currentVolume ord)) (num (currentVolume m))) d"
  by (simp add: fillUpdate_def Let_def)

lemma fillUpdate_counterparty:
  "fillUpdate ord m m =
     setVolume (num (currentVolume m) - min (num (currentVolume ord)) (num (currentVolume m))) m"
  by (simp add: fillUpdate_def Let_def)

lemma matchIter_inSync:
  assumes dist: "distinct (map oid store)"
    and sync: "inSync ord store"
    and iter: "matchIter r ord store = Some (ord', store', f)"
  shows "inSync ord' store'" and "distinct (map oid store')"
proof -
  let ?m = "counterparty f"
  from matchIter_sync [OF dist sync iter] have
    s: "store' = map (fillUpdate ord ?m) store" and ne: "oid ?m \<noteq> oid ord"
    and same: "oid ord' = oid ord" "isSelling ord' = isSelling ord"
    and cur: "currentVolume ord' = Canon (num (currentVolume ord) - fillVolume f)
          \<or> (ord' = ord \<and> r = Current \<and> currentVolume ord = Canon (num (currentVolume ord) - fillVolume f))"
    by simp_all
  from matchIter_Some [OF iter] have
    v: "fillVolume f = min (num (currentVolume ord)) (num (currentVolume ?m))" by simp
  from s dist show "distinct (map oid store')" by (simp add: o_def)
  from sync obtain d0 where d0: "d0 \<in> set store" "oid d0 = oid ord"
    "currentVolume d0 = currentVolume ord" "isSelling d0 = isSelling ord"
    by (auto simp: inSync_def)
  from d0(1) s have mem: "fillUpdate ord ?m d0 \<in> set store'" by simp
  have "currentVolume (fillUpdate ord ?m d0) = Canon (num (currentVolume ord) - fillVolume f)"
    using d0(2) ne v by (simp add: fillUpdate_incoming)
  with cur have "currentVolume (fillUpdate ord ?m d0) = currentVolume ord'" by auto
  with mem d0 same show "inSync ord' store'"
    unfolding inSync_def by (intro bexI [of _ "fillUpdate ord ?m d0"]) simp_all
qed

lemma matchIter_progress:
  assumes dist: "distinct (map oid store)"
    and sync: "inSync ord store"
    and pos: "0 < num (currentVolume ord)"
    and iter: "matchIter r ord store = Some (ord', store', f)"
  shows "num (currentVolume ord') = 0
     \<or> (currentVolume (fillUpdate ord (counterparty f) (counterparty f)) = Canon 0
         \<and> length (filter (eligible ord') store') < length (filter (eligible ord) store))"
proof -
  let ?m = "counterparty f"
  let ?c = "num (currentVolume ord)"
  let ?cm = "num (currentVolume ?m)"
  from matchIter_sync [OF dist sync iter] have
    s: "store' = map (fillUpdate ord ?m) store" and ne: "oid ?m \<noteq> oid ord"
    and mem: "?m \<in> set store" and el: "eligible ord ?m"
    and same: "isSelling ord' = isSelling ord" "limit ord' = limit ord"
    and cur: "currentVolume ord' = Canon (?c - fillVolume f)
          \<or> (ord' = ord \<and> r = Current \<and> currentVolume ord = Canon (?c - fillVolume f))"
    by simp_all
  from matchIter_Some [OF iter] have v: "fillVolume f = min ?c ?cm" by simp
  from sync obtain d0 where d0: "d0 \<in> set store" "oid d0 = oid ord"
    "currentVolume d0 = currentVolume ord" "isSelling d0 = isSelling ord"
    by (auto simp: inSync_def)
  show ?thesis
  proof (cases "?c \<le> ?cm")
    case True
    with v have "fillVolume f = ?c" by simp
    with cur have "num (currentVolume ord') = 0" by auto
    then show ?thesis by simp
  next
    case False
    with v have vm: "min ?c ?cm = ?cm" by simp
    have zero: "currentVolume (fillUpdate ord ?m ?m) = Canon 0"
      by (simp add: fillUpdate_counterparty vm)
    then have gone: "\<not> eligible ord (fillUpdate ord ?m ?m)" by (simp add: eligible_def)
    have keep: "\<forall>d\<in>set store. eligible ord (fillUpdate ord ?m d) \<longrightarrow> eligible ord d"
    proof (intro ballI impI)
      fix d assume d: "d \<in> set store" and e: "eligible ord (fillUpdate ord ?m d)"
      show "eligible ord d"
      proof (cases "oid d = oid ?m")
        case True
        with d mem have "d = ?m" by (simp add: same_oid [OF dist])
        with e gone show ?thesis by simp
      next
        case nm: False
        show ?thesis
        proof (cases "oid d = oid ord")
          case True
          with d d0 have "d = d0" by (simp add: same_oid [OF dist])
          with e d0 show ?thesis by (simp add: eligible_def)
        next
          case False
          with nm e show ?thesis by (simp add: fillUpdate_other)
        qed
      qed
    qed
    have "length (filter (eligible ord) (map (fillUpdate ord ?m) store))
            < length (filter (eligible ord) store)"
      using keep mem el gone by (rule filter_map_less)
    moreover have "eligible ord' = eligible ord" using same by (rule eligible_cong)
    ultimately show ?thesis using zero s by simp
  qed
qed

lemma matchLoop_returns:
  "distinct (map oid store) \<Longrightarrow> inSync ord store \<Longrightarrow>
   \<exists>res. matchLoop r ord store latestVolume latestPrice fs = Some res"
proof (induction "length (filter (eligible ord) store)"
         arbitrary: ord store latestVolume latestPrice fs rule: less_induct)
  case less
  show ?case
  proof (cases "0 < num (currentVolume ord)")
    case False
    then show ?thesis by (subst matchLoop.simps) simp
  next
    case pos: True
    show ?thesis
    proof (cases "matchIter r ord store")
      case None
      with pos show ?thesis by (subst matchLoop.simps) simp
    next
      case (Some t)
      then obtain ord' store' f where iter: "matchIter r ord store = Some (ord', store', f)"
        by (cases t) auto
      from matchIter_inSync [OF less.prems iter] have
        sync': "inSync ord' store'" and dist': "distinct (map oid store')" by simp_all
      have "\<exists>res. matchLoop r ord' store' (Some (fillVolume f)) (Some (fillPrice f)) (fs @ [f]) = Some res"
      proof (cases "num (currentVolume ord') = 0")
        case True
        then show ?thesis by (subst matchLoop.simps) simp
      next
        case False
        with matchIter_progress [OF less.prems pos iter] have
          "length (filter (eligible ord') store') < length (filter (eligible ord) store)" by simp
        from less.hyps [OF this dist' sync'] show ?thesis .
      qed
      with pos iter show ?thesis by (subst matchLoop.simps) simp
    qed
  qed
qed

section \<open>The invariant\<close>


lemma updAll_setStatus [simp]:
  "oid (updAll i (setStatus st) d) = oid d"
  "currentVolume (updAll i (setStatus st) d) = currentVolume d"
  "originalVolume (updAll i (setStatus st) d) = originalVolume d"
  "isSelling (updAll i (setStatus st) d) = isSelling d"
  by (simp_all add: updAll_def)






lemma inSync_member: "ord \<in> set store \<Longrightarrow> inSync ord store"
  by (auto simp: inSync_def)






lemma matchNextOrder_fields [simp]:
  "Order (matchNextOrder s) = Order s"
  "MarketData (matchNextOrder s) = MarketData s"
  "logged (matchNextOrder s) = logged s"
  "pc (matchNextOrder s) = (if processing s then pc s else Fetch)"
  "processing (matchNextOrder s) = True"
  by (simp_all add: matchNextOrder_def)

lemma afterPass_fields [simp]:
  "Order (afterPass s) = Order s"
  "MarketData (afterPass s) = MarketData s"
  "logged (afterPass s) = logged s"
  "pc (afterPass s) = (if processing s then Idle else Fetch)"
  "processing (afterPass s) = True"
  by (simp_all add: afterPass_def)














section \<open>Termination of the matching loop\<close>




lemmas eval_defs = matchIter_def findMatching_def eligible_def crossing_def betterPrice_def
  setVolume_def modifiedCheck_def restingAsk_def incomingBid_def Let_def


text \<open>
  The steps of the engine compute \<open>processOrder\<close>: from the head of the loop, when
  no other event comes in between, finitely many completed store calls lead to the
  state \<open>processOrder\<close> returns, followed by the call of \<open>matchNextOrder\<close>. And
  \<open>processOrder\<close> returns on every order that \<open>matchNextOrder\<close> can pass to it.
\<close>

lemma matchLoop_ticks:
  assumes "matchLoop r ord store v p fs = Some res"
  shows "\<exists>n. (tick r now ^^ n) (s\<lparr>Order := store, fills := fs, pc := Loop ord v p\<rparr>)
            = (case res of (ord', store', v', p', fs') \<Rightarrow>
                 setProcessed ord' v' p' (s\<lparr>Order := store', fills := fs'\<rparr>))"
proof (rule matchLoop.raw_induct
    [where P = "\<lambda>r ord store v p fs res.
       \<exists>n. (tick r now ^^ n) (s\<lparr>Order := store, fills := fs, pc := Loop ord v p\<rparr>)
            = (case res of (ord', store', v', p', fs') \<Rightarrow>
                 setProcessed ord' v' p' (s\<lparr>Order := store', fills := fs'\<rparr>))", OF _ assms])
  fix loop r ord store v p fs res
  assume IH: "\<And>r ord store v p fs res. loop r ord store v p fs = Some res \<Longrightarrow>
       \<exists>n. (tick r now ^^ n) (s\<lparr>Order := store, fills := fs, pc := Loop ord v p\<rparr>)
            = (case res of (ord', store', v', p', fs') \<Rightarrow>
                 setProcessed ord' v' p' (s\<lparr>Order := store', fills := fs'\<rparr>))"
    and eq: "(if 0 < num (currentVolume ord)
              then case matchIter r ord store of
                     None \<Rightarrow> Some (ord, store, v, p, fs)
                   | Some (ord', store', f) \<Rightarrow>
                       loop r ord' store' (Some (fillVolume f)) (Some (fillPrice f)) (fs @ [f])
              else Some (ord, store, v, p, fs)) = Some res"
  let ?s = "s\<lparr>Order := store, fills := fs, pc := Loop ord v p\<rparr>"
  show "\<exists>n. (tick r now ^^ n) ?s
            = (case res of (ord', store', v', p', fs') \<Rightarrow>
                 setProcessed ord' v' p' (s\<lparr>Order := store', fills := fs'\<rparr>))"
  proof (cases "0 < num (currentVolume ord) \<and> matchIter r ord store \<noteq> None")
    case False
    with eq have res: "res = (ord, store, v, p, fs)" by (auto split: if_splits option.splits)
    from False have "tick r now ?s = setProcessed ord v p (s\<lparr>Order := store, fills := fs\<rparr>)"
      by (cases "matchIter r ord store") (auto simp: tick_def loopStep_def setProcessed_def)
    then have "(tick r now ^^ 1) ?s = setProcessed ord v p (s\<lparr>Order := store, fills := fs\<rparr>)"
      by simp
    with res show ?thesis by (intro exI [of _ 1]) simp
  next
    case True
    then obtain ord1 store1 f where iter: "matchIter r ord store = Some (ord1, store1, f)"
      by auto
    with True eq have
      "loop r ord1 store1 (Some (fillVolume f)) (Some (fillPrice f)) (fs @ [f]) = Some res"
      by simp
    from IH [OF this] obtain n where
      n: "(tick r now ^^ n) (s\<lparr>Order := store1, fills := fs @ [f],
             pc := Loop ord1 (Some (fillVolume f)) (Some (fillPrice f))\<rparr>)
           = (case res of (ord', store', v', p', fs') \<Rightarrow>
                 setProcessed ord' v' p' (s\<lparr>Order := store', fills := fs'\<rparr>))" by blast
    from True iter have "tick r now ?s = s\<lparr>Order := store1, fills := fs @ [f],
             pc := Loop ord1 (Some (fillVolume f)) (Some (fillPrice f))\<rparr>"
      by (simp add: tick_def loopStep_def)
    with n have "(tick r now ^^ Suc n) ?s = (case res of (ord', store', v', p', fs') \<Rightarrow>
                 setProcessed ord' v' p' (s\<lparr>Order := store', fills := fs'\<rparr>))"
      by (simp add: funpow_swap1)
    then show ?thesis by blast
  qed
qed

lemma processOrder_ticks:
  assumes "processOrder r now ord s = Some s'"
  shows "\<exists>n. (tick r now ^^ n) (s\<lparr>pc := Loop ord None None\<rparr>) = afterPass s'"
proof -
  from assms obtain ord' store' v p fs where
    loop: "matchLoop r ord (Order s) None None (fills s) = Some (ord', store', v, p, fs)"
    and s': "s' = writeMarketData r now v p (setProcessed ord' v p (s\<lparr>Order := store', fills := fs\<rparr>))"
    by (auto simp: processOrder_def split: option.splits)
  from matchLoop_ticks [OF loop, of now s] obtain n where
    "(tick r now ^^ n) (s\<lparr>pc := Loop ord None None\<rparr>)
       = setProcessed ord' v p (s\<lparr>Order := store', fills := fs\<rparr>)" by auto
  then have "(tick r now ^^ Suc n) (s\<lparr>pc := Loop ord None None\<rparr>) = afterPass s'"
    by (simp add: s' tick_def setProcessed_def snapStep_def)
  then show ?thesis by blast
qed

lemma processOrder_returns:
  assumes "distinct (map oid (Order s))" and "ord \<in> set (Order s)"
  shows "\<exists>s'. processOrder r now ord s = Some s'"
proof -
  from assms have "\<exists>res. matchLoop r ord (Order s) None None (fills s) = Some res"
    by (intro matchLoop_returns inSync_member)
  then show ?thesis by (auto simp: processOrder_def split: option.splits)
qed

text \<open>
  C1 as stated fails on the tie-break. Two asks at 9 are eligible for a buy at 10; the
  store scans the one created at 3 before the one created at 2, and the query, sorted
  on \<open>limit\<close> alone, returns the later one. (The scan order of a collection is not
  the order of \<open>created\<close>: \<open>created\<close> is the clock of the process that built the
  document, and the store is free to move a document.)
\<close>

theorem C1_fifo_counterexample:
  "map_option (created \<circ> counterparty \<circ> snd \<circ> snd)
     (matchIter Current (incomingBid 4 10 5 4)
        [restingAsk 3 9 5 3, restingAsk 2 9 5 2, incomingBid 4 10 5 4]) = Some 3
   \<and> eligible (incomingBid 4 10 5 4) (restingAsk 2 9 5 2)
   \<and> limit (restingAsk 2 9 5 2) = limit (restingAsk 3 9 5 3)
   \<and> created (restingAsk 2 9 5 2) < created (restingAsk 3 9 5 3)"
  by code_simp

section \<open>Runs of the engine\<close>

text \<open>
  C1, amended, on the example of the specification: asks at 10, 9 and 9 scanned in the
  order of their creation, and a buy at 10. The ask at 9 scanned first is selected.
\<close>

theorem C1_selection_witness:
  "(case matchIter Current (incomingBid 4 10 5 40)
           [restingAsk 5 10 5 10, restingAsk 2 9 5 20, restingAsk 3 9 5 30, incomingBid 4 10 5 40] of
      None \<Rightarrow> False
    | Some (ord', store', f) \<Rightarrow>
        counterparty f = restingAsk 2 9 5 20
        \<and> (\<exists>before after.
              [restingAsk 5 10 5 10, restingAsk 2 9 5 20, restingAsk 3 9 5 30, incomingBid 4 10 5 40]
                = before @ counterparty f # after
              \<and> eligible (incomingBid 4 10 5 40) (counterparty f)
              \<and> list_all (\<lambda>d. eligible (incomingBid 4 10 5 40) d \<longrightarrow> limit (counterparty f) \<le> limit d)
                   [restingAsk 5 10 5 10, restingAsk 2 9 5 20, restingAsk 3 9 5 30, incomingBid 4 10 5 40]
              \<and> list_all (\<lambda>d. eligible (incomingBid 4 10 5 40) d \<longrightarrow> limit d \<noteq> limit (counterparty f))
                   before))"
proof -
  let ?bid = "incomingBid 4 10 5 40"
  let ?store = "[restingAsk 5 10 5 10, restingAsk 2 9 5 20, restingAsk 3 9 5 30, incomingBid 4 10 5 40]"
  obtain ord' store' f where iter: "matchIter Current ?bid ?store = Some (ord', store', f)"
    and cp: "counterparty f = restingAsk 2 9 5 20"
    by (simp add: eval_defs)
  have buy: "\<not> isSelling ?bid" by (simp add: incomingBid_def)
  from C1_selection [OF iter] buy have
    "\<exists>before after. ?store = before @ counterparty f # after
        \<and> eligible ?bid (counterparty f)
        \<and> list_all (\<lambda>d. eligible ?bid d \<longrightarrow> limit (counterparty f) \<le> limit d) ?store
        \<and> list_all (\<lambda>d. eligible ?bid d \<longrightarrow> limit d \<noteq> limit (counterparty f)) before"
    unfolding list_all_iff by simp
  with cp show ?thesis unfolding iter by simp
qed

text \<open>
  C2 on the partial fill of the specification: one fill, of volume 5 at price 12, the
  limit of the incoming buy.
\<close>

theorem C2_fill_volume_price_witness:
  "\<exists>f. fills (run Current (boot [] []) partialFill) = [f]
       \<and> fillVolume f = min (num (currentVolume (incoming f))) (num (currentVolume (counterparty f)))
       \<and> priceValue (fillPrice f) = limit (incoming f)
       \<and> fillVolume f = 5 \<and> priceValue (fillPrice f) = 12 \<and> \<not> isSelling (incoming f)"
proof -
  have "length (fills (run Current (boot [] []) partialFill)) = 1" by code_simp
  then obtain f where f: "fills (run Current (boot [] []) partialFill) = [f]"
    by (auto simp: length_Suc_conv)
  have "map (\<lambda>f. (fillVolume f, priceValue (fillPrice f), isSelling (incoming f)))
          (fills (run Current (boot [] []) partialFill)) = [(5, 12, False)]"
    by code_simp
  with f have v: "fillVolume f = 5" "priceValue (fillPrice f) = 12" "\<not> isSelling (incoming f)"
    by simp_all
  from C2_fill_volume_price [of Current "[]" "[]" partialFill] f v show ?thesis by simp
qed



text \<open>
  C4 (the status of an order never goes from canceled back to processed or
  unprocessed) fails on the current revision. \<open>placeOrder\<close> does not await the drain
  it starts, so \<open>cancelOrder\<close> can commit after the drain has fetched the order and
  before the pass ends; the pass then writes \<open>status: 'processed'\<close> over
  \<open>'canceled'\<close>, since that update tests nothing.
\<close>

theorem C4_canceled_becomes_processed:
  "map status (Order (run Current (boot [] [])
      [PlaceOrder 1 1 10 (Canon 5) ''A'' True, Tick 2, CancelOrder 1])) = [canceled]
   \<and> map status (Order (run Current (boot [] [])
      [PlaceOrder 1 1 10 (Canon 5) ''A'' True, Tick 2, CancelOrder 1, Tick 3])) = [processed]"
  by code_simp

text \<open>
  C6 (after \<open>cancelOrder(id)\<close> has committed the order is never selected as a
  counterparty) fails on the current revision for the same reason: the order canceled
  during its own pass is set to processed, and the pass of the next crossing order
  selects it and fills against it.
\<close>

theorem C6_canceled_order_selected:
  "map status (Order (run Current (boot [] []) cancelRace)) = [processed]
   \<and> map (\<lambda>f. (oid (incoming f), oid (counterparty f), fillVolume f))
       (fills (run Current (boot [] [])
          (cancelRace @ [Tick 4, Tick 5, PlaceOrder 6 2 12 (Canon 8) ''B'' False, Tick 7, Tick 8])))
     = [(2, 1, 5)]"
  by code_simp

text \<open>
  C7 (on an internal error the busy flag is cleared) fails on the current revision
  when the store call that throws is one of \<open>processOrder\<close>. An error of the
  \<open>findOne\<close> of \<open>matchNextOrder\<close> clears the flag. An error inside the pass is
  caught by \<open>processOrder\<close>, which logs it and skips its own
  \<open>this.processing = false\<close>: the flag stays set with no drain running, and an order
  placed afterwards is never processed.
\<close>

theorem C7_flag_stays_set:
  "processing (run Current (boot [] []) [Fault]) = False
   \<and> (let s = run Current (boot [] []) [PlaceOrder 1 1 10 (Canon 5) ''A'' True, Tick 2, Fault]
      in processing s \<and> pc s = Idle \<and> logged s = 1 \<and> map status (Order s) = [unprocessed])
   \<and> (let s = run Current (boot [] [])
                 [PlaceOrder 1 1 10 (Canon 5) ''A'' True, Tick 2, Fault,
                  PlaceOrder 3 2 12 (Canon 8) ''B'' False, Tick 4, Tick 5, Tick 6]
      in processing s \<and> pc s = Idle \<and> map status (Order s) = [unprocessed, unprocessed]
         \<and> fills s = [] \<and> MarketData s = [])"
  by code_simp

text \<open>
  C5 (a pass without a fill appends a market-data document that repeats the match
  volume and price of the latest one) fails in \<open>src/order-matching.js\<close>: with no
  fill, \<open>!latestVolume\<close> holds, \<open>matchPrice\<close> is evaluated and throws, and no
  document is written. The engine is started on a store with one unprocessed ask and
  one earlier document; the other revision, on the same input, carries 5 and 12
  forward.
\<close>

theorem C5_legacy_no_snapshot:
  "(let s = run Legacy (boot [restingAsk 3 20 8 12\<lparr>status := unprocessed\<rparr>] [earlierSnapshot])
              [Tick 13, Tick 14, Tick 15]
    in MarketData s = [earlierSnapshot] \<and> fills s = [] \<and> logged s = 1
       \<and> map status (Order s) = [processed])
   \<and> (let s = run Current (boot [restingAsk 3 20 8 12\<lparr>status := unprocessed\<rparr>] [earlierSnapshot])
              [Tick 13, Tick 14, Tick 15]
      in map (\<lambda>m. (matchVolume m, matchPrice m)) (MarketData s)
           = [(Some 5, Some 12), (Some 5, Some 12)] \<and> fills s = [] \<and> logged s = 0)"
  by code_simp

text \<open>
  In the revision with \<open>addHooks\<close> the carry-forward holds for every pass without a
  fill: the document it appends repeats the match volume and price of the one
  \<open>getLatestMarketData\<close> returns.
\<close>

lemma snapStep_carries_forward:
  assumes "getLatestMarketData (MarketData s) = Some previous"
  shows "\<exists>m. MarketData (snapStep Current now None None s) = MarketData s @ [m]
            \<and> matchVolume m = matchVolume previous \<and> matchPrice m = matchPrice previous"
  using assms
  by (simp add: snapStep_def writeMarketData_def appendMarketData_def carryForward_def Let_def)




text \<open>
  C9 as stated fails: the order is created with the id 7 and \<open>placeOrder\<close> does not
  return it.
\<close>

theorem C9_no_id_returned_counterexample:
  "fst (placeOrder 1 7 10 (Canon 5) ''A'' True (boot [] [])) \<noteq> Returns (ObjectId 7)
   \<and> map oid (Order (snd (placeOrder 1 7 10 (Canon 5) ''A'' True (boot [] [])))) = [7]"
  by code_simp

text \<open>
  C9, amended. \<open>placeOrder\<close> has no \<open>return\<close> statement: for every input it
  returns undefined.
\<close>

theorem C9_placeOrder_returns_undefined:
  "fst (placeOrder now orderId limitPrice volume user selling s) = Returns Undefined"
  by (simp add: placeOrder_def)

end
